theory Spec2Isabelle
  imports Complex_Main "HOL-Library.AList" "HOL-Library.Multiset" "HOL-Library.Sublist"
begin

section \<open>Text: characters, lower-casing, whitespace\<close>

text \<open>
  Python strings are sequences of code points. The model covers the code points below
  256 (Latin-1), one \<^typ>\<open>char\<close> each, so a \<^typ>\<open>string\<close> is a Python \<open>str\<close> over that
  range. On it \<open>str.lower\<close> maps one character to one character and \<open>str.split\<close> /
  \<open>str.strip\<close> use the whitespace set given by \<open>isspace\<close>.
\<close>

definition isspace :: "char \<Rightarrow> bool" where
  "isspace c =
     (let n = (of_char c :: nat)
      in (9 \<le> n \<and> n \<le> 13) \<or> (28 \<le> n \<and> n \<le> 32) \<or> n = 133 \<or> n = 160)"

definition isupper_ascii :: "char \<Rightarrow> bool" where
  "isupper_ascii c = (let n = (of_char c :: nat) in 65 \<le> n \<and> n \<le> 90)"

definition lower_char :: "char \<Rightarrow> char" where
  "lower_char c =
     (let n = (of_char c :: nat)
      in if (65 \<le> n \<and> n \<le> 90) \<or> (192 \<le> n \<and> n \<le> 222 \<and> n \<noteq> 215)
         then char_of (n + 32) else c)"

definition lower :: "string \<Rightarrow> string" where
  "lower s = map lower_char s"

text \<open>\<open>s.strip()\<close>: whitespace removed at both ends.\<close>

definition strip :: "string \<Rightarrow> string" where
  "strip s = rev (dropWhile isspace (rev (dropWhile isspace s)))"

text \<open>
  \<open>s.split()\<close> with no separator: the maximal runs of non-whitespace characters, in
  order; no empty string is produced. \<open>cur\<close> is the run being read.
\<close>

fun split_from :: "string \<Rightarrow> string \<Rightarrow> string list" where
  "split_from cur [] = (if cur = [] then [] else [cur])"
| "split_from cur (c # cs) =
     (if isspace c then (if cur = [] then [] else [cur]) @ split_from [] cs
      else split_from (cur @ [c]) cs)"

definition split :: "string \<Rightarrow> string list" where
  "split s = split_from [] s"

section \<open>TrieNode and Trie\<close>

text \<open>
  A \<open>TrieNode\<close> has the dictionary \<open>children\<close>, the flag \<open>is_end\<close> and the list
  \<open>book_indices\<close>. A Python dictionary iterates in insertion order, and
  \<open>_collect_indices\<close> iterates over \<open>children.values()\<close>, so the dictionary is an
  association list in insertion order: \<^const>\<open>map_of\<close> is the lookup and
  \<^const>\<open>AList.update\<close> the assignment \<open>children[char] = v\<close> (in place for a key that is
  present, appended for a new key). Every node is referenced by its parent only, so the
  in-place mutation of \<open>insert\<close> is the rebuilding of the path it walks.
\<close>

datatype TrieNode =
  TrieNode (children: "(char \<times> TrieNode) list") (is_end: bool) (book_indices: "nat list")

definition new_TrieNode :: TrieNode where
  "new_TrieNode = TrieNode [] False []"

datatype Trie = Trie (root: TrieNode)

definition new_Trie :: Trie where
  "new_Trie = Trie new_TrieNode"

text \<open>
  \<open>Trie.insert\<close>, from the node the loop stands on: at the end of the word the node is
  marked and the index appended; otherwise the child for the character is created when
  absent and the loop goes on in it.
\<close>

fun insert_from :: "string \<Rightarrow> nat \<Rightarrow> TrieNode \<Rightarrow> TrieNode" where
  "insert_from [] index node =
     TrieNode (children node) True (book_indices node @ [index])"
| "insert_from (c # word) index node =
     (let child = (case map_of (children node) c of
                     None \<Rightarrow> new_TrieNode
                   | Some ch \<Rightarrow> ch)
      in TrieNode (AList.update c (insert_from word index child) (children node))
           (is_end node) (book_indices node))"

definition insert_word :: "string \<Rightarrow> nat \<Rightarrow> Trie \<Rightarrow> Trie" where
  "insert_word word index t = Trie (insert_from word index (root t))"

text \<open>\<open>Trie._collect_indices\<close>: the node's own indices when it is marked, then those of
  each child, in dictionary order.\<close>

fun collect_indices :: "TrieNode \<Rightarrow> nat list" where
  "collect_indices (TrieNode cs e bs) =
     (if e then bs else []) @ concat (map (\<lambda>kv. collect_indices (snd kv)) cs)"

text \<open>\<open>Trie.search\<close>, from the node the loop stands on: a character with no child
  returns the empty list at once.\<close>

fun search_from :: "string \<Rightarrow> TrieNode \<Rightarrow> nat list" where
  "search_from [] node = collect_indices node"
| "search_from (c # pre) node =
     (case map_of (children node) c of
        None \<Rightarrow> []
      | Some ch \<Rightarrow> search_from pre ch)"

definition search :: "string \<Rightarrow> Trie \<Rightarrow> nat list" where
  "search pre t = search_from pre (root t)"

text \<open>The node the loop of \<open>search\<close> stands on after the whole prefix, \<open>None\<close> when
  some character has no child.\<close>

fun walk :: "string \<Rightarrow> TrieNode \<Rightarrow> TrieNode option" where
  "walk [] node = Some node"
| "walk (c # pre) node =
     (case map_of (children node) c of
        None \<Rightarrow> None
      | Some ch \<Rightarrow> walk pre ch)"

text \<open>The number of calls of \<open>_collect_indices\<close> that a call on a node makes: one for the
  node and those made for each child.\<close>

fun collect_calls :: "TrieNode \<Rightarrow> nat" where
  "collect_calls (TrieNode cs e bs) = 1 + sum_list (map (\<lambda>kv. collect_calls (snd kv)) cs)"


text \<open>What \<open>insert\<close> keeps true of every node: indices are stored on marked nodes only.\<close>

fun marked_ok :: "TrieNode \<Rightarrow> bool" where
  "marked_ok (TrieNode cs e bs) = ((e \<or> bs = []) \<and> list_all (\<lambda>kv. marked_ok (snd kv)) cs)"

section \<open>TrieBasedRecommender\<close>

text \<open>
  A row of the data frame, with the four columns the code reads. \<open>average_rating\<close> is a
  number; the code only compares ratings, so its type is any linear order (a float that
  is not NaN, or the integer of the rating slider). The identifier \<open>idx\<close> that
  \<open>iterrows\<close> yields is the row label, which for the frame \<open>pd.read_csv\<close> returns is the
  row position \<open>0, 1, ...\<close> that \<open>iloc\<close> takes.
\<close>

record 'r book =
  title :: string
  authors :: string
  genre :: string
  average_rating :: 'r

record 'r TrieBasedRecommender =
  books_df :: "'r book list"
  trie :: Trie

datatype error = IndexError | SchemaError "string set"

text \<open>\<open>f"{book['title']} {book['authors']} {book['genre']}"\<close>\<close>

definition searchable_text :: "'r book \<Rightarrow> string" where
  "searchable_text b = title b @ '' '' @ authors b @ '' '' @ genre b"

text \<open>\<open>searchable_text.lower().split()\<close>\<close>

definition tokens :: "'r book \<Rightarrow> string list" where
  "tokens b = split (lower (searchable_text b))"

text \<open>The inner loop of \<open>__init__\<close>: every word of one row is inserted with the row's
  identifier.\<close>

definition index_book :: "nat \<Rightarrow> 'r book \<Rightarrow> Trie \<Rightarrow> Trie" where
  "index_book idx b t = fold (\<lambda>word. insert_word word idx) (tokens b) t"

text \<open>\<open>TrieBasedRecommender.__init__\<close>: the rows in order, into a new trie.\<close>

definition build_trie :: "'r book list \<Rightarrow> Trie" where
  "build_trie books = fold (\<lambda>(idx, b). index_book idx b) (enumerate 0 books) new_Trie"

definition init :: "'r book list \<Rightarrow> 'r TrieBasedRecommender" where
  "init books = \<lparr>books_df = books, trie = build_trie books\<rparr>"

text \<open>A trie filled from any sequence of (word, identifier) insertions, and the sequence
  that \<open>__init__\<close> performs.\<close>

definition insert_all :: "(string \<times> nat) list \<Rightarrow> Trie \<Rightarrow> Trie" where
  "insert_all ps t = fold (\<lambda>(word, idx). insert_word word idx) ps t"

definition insertions :: "'r book list \<Rightarrow> (string \<times> nat) list" where
  "insertions books =
     concat (map (\<lambda>(idx, b). map (\<lambda>word. (word, idx)) (tokens b)) (enumerate 0 books))"

text \<open>\<open>books_df.iloc[idx]\<close> raises \<open>IndexError\<close> for a position past the last row.\<close>

definition iloc :: "'a list \<Rightarrow> nat \<Rightarrow> error + 'a" where
  "iloc df idx = (if idx < length df then Inr (df ! idx) else Inl IndexError)"

text \<open>The first statement of \<open>recommend_books\<close>: the candidate identifiers.\<close>

definition recommended_indices :: "'r TrieBasedRecommender \<Rightarrow> string \<Rightarrow> nat list" where
  "recommended_indices r search_query =
     (if strip search_query = [] then [0 ..< length (books_df r)]
      else search (lower search_query) (trie r))"

text \<open>
  The list comprehension of \<open>recommend_books\<close>: the candidates in order; the condition
  reads the row at \<open>idx\<close> (the rating is read for every candidate, also when both filters
  are \<open>"All"\<close>), so a position out of range raises; a row that passes is appended.
\<close>

fun collect_and_filter ::
  "('r::linorder) book list \<Rightarrow> string \<Rightarrow> string \<Rightarrow> 'r \<Rightarrow> nat list \<Rightarrow> error + 'r book list" where
  "collect_and_filter df author genre_sel min_rating [] = Inr []"
| "collect_and_filter df author genre_sel min_rating (idx # rest) =
     (case iloc df idx of
        Inl e \<Rightarrow> Inl e
      | Inr b \<Rightarrow>
          (case collect_and_filter df author genre_sel min_rating rest of
             Inl e \<Rightarrow> Inl e
           | Inr recommended \<Rightarrow>
               if (author = ''All'' \<or> authors b = author) \<and>
                  (genre_sel = ''All'' \<or> genre b = genre_sel) \<and>
                  min_rating \<le> average_rating b
               then Inr (b # recommended) else Inr recommended))"

text \<open>
  \<open>recommended.sort(key=lambda x: x['average_rating'], reverse=True)\<close>. The sort of
  Python lists is stable, and with \<open>reverse=True\<close> it reverses the list, sorts it
  ascending and stably, and reverses the result, so that equal keys keep their order.
\<close>

definition sort_by_rating :: "('r::linorder) book list \<Rightarrow> 'r book list" where
  "sort_by_rating recommended = rev (sort_key average_rating (rev recommended))"

definition recommend_books ::
  "('r::linorder) TrieBasedRecommender \<Rightarrow> string \<Rightarrow> string \<Rightarrow> string \<Rightarrow> 'r \<Rightarrow> error + 'r book list" where
  "recommend_books r search_query author genre_sel min_rating =
     (case collect_and_filter (books_df r) author genre_sel min_rating
             (recommended_indices r search_query) of
        Inl e \<Rightarrow> Inl e
      | Inr recommended \<Rightarrow> Inr (sort_by_rating recommended))"

text \<open>The condition for keeping a candidate row, as the specification words it: the
  author filter is \<open>"All"\<close> or equals the row's authors, the genre filter is \<open>"All"\<close> or
  equals the row's genre, and the row's rating is at least the minimum.\<close>

definition passes :: "string \<Rightarrow> string \<Rightarrow> ('r::linorder) \<Rightarrow> 'r book \<Rightarrow> bool" where
  "passes author genre_sel min_rating b =
     ((author = ''All'' \<or> authors b = author) \<and>
      (genre_sel = ''All'' \<or> genre b = genre_sel) \<and>
      min_rating \<le> average_rating b)"

section \<open>The check of the columns\<close>

definition required_columns :: "string set" where
  "required_columns = {''title'', ''authors'', ''genre'', ''average_rating''}"

text \<open>
  The script after the data is loaded: when a required column is not among the columns
  of the frame, \<open>st.error\<close> shows one message that lists \<open>required_columns\<close> and
  \<open>st.stop()\<close> ends the run; otherwise the recommender is built.
\<close>

definition start_recommender ::
  "string list \<Rightarrow> 'r book list \<Rightarrow> error + 'r TrieBasedRecommender" where
  "start_recommender columns books =
     (if required_columns \<subseteq> set columns then Inr (init books)
      else Inl (SchemaError required_columns))"

section \<open>Example data\<close>

text \<open>The catalogue of the scenarios: three rows with ratings 4.2, 3.8 and 4.5.\<close>

definition example_books :: "rat book list" where
  "example_books =
     [\<lparr>title = ''Dune'', authors = ''Herbert'', genre = ''Sci-Fi'', average_rating = 42 / 10\<rparr>,
      \<lparr>title = ''Dune Messiah'', authors = ''Herbert'', genre = ''Sci-Fi'',
         average_rating = 38 / 10\<rparr>,
      \<lparr>title = ''Emma'', authors = ''Austen'', genre = ''Romance'', average_rating = 45 / 10\<rparr>]"

text \<open>A catalogue with a row whose authors and genre are literally \<open>All\<close>.\<close>

definition all_books :: "rat book list" where
  "all_books =
     [\<lparr>title = ''Emma'', authors = ''Austen'', genre = ''Romance'', average_rating = 45 / 10\<rparr>,
      \<lparr>title = ''Anthology'', authors = ''All'', genre = ''All'', average_rating = 3\<rparr>,
      \<lparr>title = ''Eragon'', authors = ''Paolini'', genre = ''Fantasy'', average_rating = 45 / 10\<rparr>]"

section \<open>The dictionary of children\<close>

lemma update_absent: "map_of cs c = None \<Longrightarrow> AList.update c v cs = cs @ [(c, v)]"
  by (induction cs) (auto split: if_splits)

lemma update_present_sum:
  "map_of cs c = Some ch \<Longrightarrow>
   (\<Sum>kv\<leftarrow>AList.update c v cs. (F (snd kv) :: 'b :: comm_monoid_add)) + F ch =
   (\<Sum>kv\<leftarrow>cs. F (snd kv)) + F v"
  by (induction cs) (auto split: if_splits simp: ac_simps)

lemma mset_collect_indices:
  "mset (collect_indices (TrieNode cs e bs)) =
     (if e then mset bs else {#}) + (\<Sum>kv\<leftarrow>cs. mset (collect_indices (snd kv)))"
  by (simp add: mset_concat comp_def)

lemma marked_ok_update:
  "list_all (\<lambda>kv. marked_ok (snd kv)) cs \<Longrightarrow> marked_ok v \<Longrightarrow>
   list_all (\<lambda>kv. marked_ok (snd kv)) (AList.update c v cs)"
  by (induction cs) auto

lemma marked_ok_child:
  assumes "marked_ok node" and "map_of (children node) c = Some ch"
  shows "marked_ok ch"
proof -
  from assms(2) have "(c, ch) \<in> set (children node)" by (rule map_of_SomeD)
  moreover from assms(1) have "\<forall>kv\<in>set (children node). marked_ok (snd kv)"
    by (cases node) (simp add: list_all_iff)
  ultimately show ?thesis by fastforce
qed

lemma marked_ok_new [simp]: "marked_ok new_TrieNode"
  by (simp add: new_TrieNode_def)

lemma marked_ok_insert_from: "marked_ok node \<Longrightarrow> marked_ok (insert_from word i node)"
proof (induction word arbitrary: node)
  case Nil
  then show ?case by (cases node) simp
next
  case (Cons c word)
  obtain cs e bs where node: "node = TrieNode cs e bs" by (cases node)
  show ?case
  proof (cases "map_of cs c")
    case None
    have "marked_ok (insert_from word i new_TrieNode)" by (rule Cons.IH) simp
    with None Cons.prems node show ?thesis by (simp add: marked_ok_update)
  next
    case (Some ch)
    with Cons.prems node have "marked_ok ch" using marked_ok_child [of node c ch] by simp
    then have "marked_ok (insert_from word i ch)" by (rule Cons.IH)
    with Some Cons.prems node show ?thesis by (simp add: marked_ok_update)
  qed
qed

lemma collect_new [simp]: "collect_indices new_TrieNode = []"
  by (simp add: new_TrieNode_def)

lemma collect_insert_from:
  "marked_ok node \<Longrightarrow>
   mset (collect_indices (insert_from word i node)) = mset (collect_indices node) + {#i#}"
proof (induction word arbitrary: node)
  case Nil
  then show ?case by (cases node) (auto simp: mset_concat)
next
  case (Cons c word)
  obtain cs e bs where node: "node = TrieNode cs e bs" by (cases node)
  show ?case
  proof (cases "map_of cs c")
    case None
    have "mset (collect_indices (insert_from word i new_TrieNode)) = {#i#}"
      using Cons.IH [of new_TrieNode] by simp
    with None node show ?thesis
      by (simp add: update_absent mset_concat)
  next
    case (Some ch)
    with Cons.prems node have "marked_ok ch" using marked_ok_child [of node c ch] by simp
    then have IH: "mset (collect_indices (insert_from word i ch)) = mset (collect_indices ch) + {#i#}"
      by (rule Cons.IH)
    from update_present_sum [OF Some, where v = "insert_from word i ch" and F = "\<lambda>n. mset (collect_indices n)"]
    have "(\<Sum>kv\<leftarrow>AList.update c (insert_from word i ch) cs. mset (collect_indices (snd kv))) + mset (collect_indices ch)
        = (\<Sum>kv\<leftarrow>cs. mset (collect_indices (snd kv))) + mset (collect_indices ch) + {#i#}"
      by (simp add: IH)
    then have "(\<Sum>kv\<leftarrow>AList.update c (insert_from word i ch) cs. mset (collect_indices (snd kv)))
        = (\<Sum>kv\<leftarrow>cs. mset (collect_indices (snd kv))) + {#i#}"
      by (metis add.assoc add.commute add_right_cancel)
    with Some node show ?thesis
      by (simp add: mset_collect_indices del: collect_indices.simps)
  qed
qed

lemma search_from_new [simp]: "pre \<noteq> [] \<Longrightarrow> search_from pre new_TrieNode = []"
  by (cases pre) (simp_all add: new_TrieNode_def)

lemma search_from_new_mset [simp]: "mset (search_from pre new_TrieNode) = {#}"
  by (cases pre) (simp_all add: new_TrieNode_def)

lemma search_insert_from:
  "marked_ok node \<Longrightarrow>
   mset (search_from pre (insert_from word i node)) =
     mset (search_from pre node) + (if prefix pre word then {#i#} else {#})"
proof (induction pre arbitrary: word node)
  case Nil
  then show ?case by (simp add: collect_insert_from)
next
  case (Cons c pre)
  show ?case
  proof (cases word)
    case Nil
    then show ?thesis by simp
  next
    case (Cons d word')
    show ?thesis
    proof (cases "d = c")
      case False
      with Cons show ?thesis by (simp add: update_conv')
    next
      case True
      show ?thesis
      proof (cases "map_of (children node) c")
        case None
        have "mset (search_from pre (insert_from word' i new_TrieNode)) =
              mset (search_from pre new_TrieNode) + (if prefix pre word' then {#i#} else {#})"
          by (rule Cons.IH) simp
        with None True Cons show ?thesis by (simp add: update_conv')
      next
        case (Some ch)
        with Cons.prems have "marked_ok ch" using marked_ok_child [of node c ch] by simp
        then have "mset (search_from pre (insert_from word' i ch)) =
              mset (search_from pre ch) + (if prefix pre word' then {#i#} else {#})"
          by (rule Cons.IH)
        with Some True Cons show ?thesis by (simp add: update_conv')
      qed
    qed
  qed
qed

section \<open>What a search of the built trie returns\<close>

lemma insert_all_append: "insert_all (ps @ qs) t = insert_all qs (insert_all ps t)"
  by (simp add: insert_all_def)

lemma marked_ok_insert_all: "marked_ok (root t) \<Longrightarrow> marked_ok (root (insert_all ps t))"
proof (induction ps arbitrary: t)
  case Nil
  then show ?case by (simp add: insert_all_def)
next
  case (Cons p ps)
  obtain w i where p: "p = (w, i)" by (cases p)
  have "marked_ok (root (insert_word w i t))"
    using Cons.prems by (simp add: insert_word_def marked_ok_insert_from)
  then have "marked_ok (root (insert_all ps (insert_word w i t)))" by (rule Cons.IH)
  then show ?case by (simp add: insert_all_def p)
qed

lemma search_insert_all:
  "marked_ok (root t) \<Longrightarrow>
   mset (search pre (insert_all ps t)) =
     mset (search pre t) + mset (map snd (filter (\<lambda>p. prefix pre (fst p)) ps))"
proof (induction ps arbitrary: t)
  case Nil
  then show ?case by (simp add: insert_all_def)
next
  case (Cons p ps)
  obtain w i where p: "p = (w, i)" by (cases p)
  have ok: "marked_ok (root (insert_word w i t))"
    using Cons.prems by (simp add: insert_word_def marked_ok_insert_from)
  have step: "mset (search pre (insert_word w i t)) =
      mset (search pre t) + (if prefix pre w then {#i#} else {#})"
    using Cons.prems by (simp add: search_def insert_word_def search_insert_from)
  have "insert_all (p # ps) t = insert_all ps (insert_word w i t)"
    by (simp add: insert_all_def p)
  then show ?case using Cons.IH [OF ok] step by (simp add: p)
qed

lemma index_book_insert_all:
  "index_book idx b t = insert_all (map (\<lambda>word. (word, idx)) (tokens b)) t"
  by (simp add: index_book_def insert_all_def fold_map comp_def)

lemma fold_index_book:
  "fold (\<lambda>(idx, b). index_book idx b) (enumerate n books) t =
   insert_all (concat (map (\<lambda>(idx, b). map (\<lambda>word. (word, idx)) (tokens b)) (enumerate n books))) t"
  by (induction books arbitrary: n t) (simp_all add: insert_all_append index_book_insert_all insert_all_def)

lemma build_trie_insertions: "build_trie books = insert_all (insertions books) new_Trie"
  by (simp add: build_trie_def insertions_def fold_index_book)

lemma search_new_Trie [simp]: "search pre new_Trie = []"
  by (cases pre) (simp_all add: search_def new_Trie_def new_TrieNode_def)

lemma marked_ok_new_Trie [simp]: "marked_ok (root new_Trie)"
  by (simp add: new_Trie_def)

lemma search_build_trie:
  "mset (search pre (build_trie books)) =
     mset (map snd (filter (\<lambda>p. prefix pre (fst p)) (insertions books)))"
  by (simp add: build_trie_insertions search_insert_all)

lemma count_insertions_from:
  "count_list (map snd (filter (\<lambda>p. prefix pre (fst p))
      (concat (map (\<lambda>(idx, b). map (\<lambda>word. (word, idx)) (tokens b)) (enumerate n books))))) i =
   (if n \<le> i \<and> i < n + length books
    then length (filter (prefix pre) (tokens (books ! (i - n)))) else 0)"
proof (induction books arbitrary: n)
  case Nil
  then show ?case by auto
next
  case (Cons b books)
  have one: "count_list (map snd (filter (\<lambda>p. prefix pre (fst p)) (map (\<lambda>word. (word, n)) ws))) i =
      (if i = n then length (filter (prefix pre) ws) else 0)" for ws
    by (induction ws) auto
  show ?case
    using Cons.IH [of "Suc n"] one [of "tokens b"]
    by (auto simp: nth_Cons' Suc_diff_le)
qed

lemma count_search_build_trie:
  "count_list (search pre (build_trie books)) i =
   (if i < length books then length (filter (prefix pre) (tokens (books ! i))) else 0)"
proof -
  have "count_list (search pre (build_trie books)) i =
        count (mset (search pre (build_trie books))) i" by (simp only: count_mset)
  also have "\<dots> = count_list (map snd (filter (\<lambda>p. prefix pre (fst p)) (insertions books))) i"
    by (simp only: search_build_trie count_mset)
  also have "\<dots> = (if i < length books then length (filter (prefix pre) (tokens (books ! i))) else 0)"
    using count_insertions_from [of pre 0 books i] by (simp add: insertions_def)
  finally show ?thesis .
qed


lemma strip_empty_iff: "strip s = [] \<longleftrightarrow> (\<forall>c\<in>set s. isspace c)"
proof
  assume "strip s = []"
  then have all: "\<forall>c\<in>set (dropWhile isspace s). isspace c"
    by (simp add: strip_def dropWhile_eq_Nil_conv)
  have "dropWhile isspace s = []"
  proof (rule ccontr)
    assume ne: "dropWhile isspace s \<noteq> []"
    then have "\<not> isspace (hd (dropWhile isspace s))" by (rule hd_dropWhile)
    moreover from ne have "hd (dropWhile isspace s) \<in> set (dropWhile isspace s)" by simp
    ultimately show False using all by blast
  qed
  then show "\<forall>c\<in>set s. isspace c" by (simp add: dropWhile_eq_Nil_conv)
next
  assume "\<forall>c\<in>set s. isspace c"
  then have d: "dropWhile isspace s = []" by (simp add: dropWhile_eq_Nil_conv)
  show "strip s = []" unfolding strip_def d by simp
qed

lemma collect_and_filter_in_range:
  "\<forall>idx\<in>set cands. idx < length df \<Longrightarrow>
   collect_and_filter df a g m cands = Inr (filter (passes a g m) (map ((!) df) cands))"
  by (induction cands) (simp_all add: iloc_def passes_def)

lemma collect_and_filter_out_of_range:
  "\<not> (\<forall>idx\<in>set cands. idx < length df) \<Longrightarrow> collect_and_filter df a g m cands = Inl IndexError"
proof (induction cands)
  case Nil
  then show ?case by simp
next
  case (Cons idx cands)
  show ?case
  proof (cases "idx < length df")
    case False
    then show ?thesis by (simp add: iloc_def)
  next
    case True
    with Cons.prems have "\<not> (\<forall>idx\<in>set cands. idx < length df)" by simp
    then have "collect_and_filter df a g m cands = Inl IndexError" by (rule Cons.IH)
    with True show ?thesis by (simp add: iloc_def)
  qed
qed



section \<open>Filtering and sorting\<close>

lemma sort_by_rating_sorted:
  "sorted_wrt (\<lambda>x y. average_rating y \<le> average_rating x) (sort_by_rating xs)"
proof -
  have "sorted (map average_rating (sort_key average_rating (rev xs)))" by simp
  then have "sorted_wrt (\<lambda>x y. average_rating x \<le> average_rating y) (sort_key average_rating (rev xs))"
    by (simp add: sorted_map)
  then show ?thesis
    unfolding sort_by_rating_def by (simp add: sorted_wrt_rev)
qed

lemma sort_by_rating_stable:
  "filter (\<lambda>b. average_rating b = k) (sort_by_rating xs) = filter (\<lambda>b. average_rating b = k) xs"
proof -
  have "filter (\<lambda>b. average_rating b = k) (sort_by_rating xs) =
        rev (filter (\<lambda>b. average_rating b = k) (sort_key average_rating (rev xs)))"
    by (simp add: sort_by_rating_def rev_filter)
  also have "\<dots> = rev (filter (\<lambda>b. average_rating b = k) (rev xs))"
    by (simp only: sort_key_stable)
  also have "\<dots> = filter (\<lambda>b. average_rating b = k) xs"
    by (simp add: rev_filter)
  finally show ?thesis .
qed

lemma mset_sort_by_rating [simp]: "mset (sort_by_rating xs) = mset xs"
  by (simp add: sort_by_rating_def)

lemma length_sort_by_rating [simp]: "length (sort_by_rating xs) = length xs"
  by (simp add: sort_by_rating_def)

lemma recommend_books_whitespace:
  assumes "\<forall>c\<in>set q. isspace c"
  shows "recommend_books r q a g m = Inr (sort_by_rating (filter (passes a g m) (books_df r)))"
proof -
  from assms have "recommended_indices r q = [0 ..< length (books_df r)]"
    by (simp add: recommended_indices_def strip_empty_iff)
  moreover have "collect_and_filter (books_df r) a g m [0 ..< length (books_df r)] =
      Inr (filter (passes a g m) (map ((!) (books_df r)) [0 ..< length (books_df r)]))"
    by (rule collect_and_filter_in_range) simp
  ultimately show ?thesis by (simp add: recommend_books_def map_nth)
qed

section \<open>Lower-casing, whitespace and the walk of search\<close>

lemma of_char_lt: "(of_char c :: nat) < 256"
  by (rule nat_of_char_less_256)

lemma lower_char_not_upper: "\<not> isupper_ascii (lower_char c)"
  using of_char_lt [of c]
  by (auto simp: lower_char_def isupper_ascii_def Let_def)

lemma lower_char_idem: "lower_char (lower_char c) = lower_char c"
  using of_char_lt [of c]
  by (auto simp: lower_char_def Let_def)

lemma isspace_lower_char: "isspace (lower_char c) = isspace c"
  using of_char_lt [of c]
  by (auto simp: lower_char_def isspace_def Let_def)

lemma lower_idem: "lower (lower s) = lower s"
  by (simp add: lower_def lower_char_idem)

lemma strip_lower_empty: "strip (lower s) = [] \<longleftrightarrow> strip s = []"
  by (simp add: strip_empty_iff lower_def isspace_lower_char)

lemma split_from_chars: "w \<in> set (split_from cur s) \<Longrightarrow> set w \<subseteq> set cur \<union> set s"
proof (induction s arbitrary: cur)
  case Nil
  then show ?case by (auto split: if_splits)
next
  case (Cons c s)
  show ?case
  proof (cases "isspace c")
    case True
    with Cons.prems have "w = cur \<or> w \<in> set (split_from [] s)" by (auto split: if_splits)
    then show ?thesis using Cons.IH [of "[]"] by auto
  next
    case False
    with Cons.prems have "w \<in> set (split_from (cur @ [c]) s)" by simp
    then show ?thesis using Cons.IH [of "cur @ [c]"] by auto
  qed
qed

lemma tokens_no_upper: "w \<in> set (tokens b) \<Longrightarrow> c \<in> set w \<Longrightarrow> \<not> isupper_ascii c"
proof -
  assume "w \<in> set (tokens b)" and c: "c \<in> set w"
  then have "set w \<subseteq> set (lower (searchable_text b))"
    using split_from_chars [of w "[]" "lower (searchable_text b)"]
    by (simp add: tokens_def split_def)
  with c obtain d where "c = lower_char d" by (auto simp: lower_def)
  then show ?thesis by (simp add: lower_char_not_upper)
qed

lemma search_from_walk:
  "search_from pre node = (case walk pre node of None \<Rightarrow> [] | Some n \<Rightarrow> collect_indices n)"
  by (induction pre arbitrary: node) (simp_all split: option.splits)

lemma recommend_books_no_candidates:
  "recommended_indices r q = [] \<Longrightarrow> recommend_books r q a g m = Inr []"
  by (simp add: recommend_books_def sort_by_rating_def)

lemma search_upper_empty:
  assumes "\<exists>c\<in>set pre. isupper_ascii c"
  shows "search pre (build_trie books) = []"
proof (rule ccontr)
  assume "search pre (build_trie books) \<noteq> []"
  then obtain i where i: "i \<in> set (search pre (build_trie books))"
    by (cases "search pre (build_trie books)") auto
  then have "count_list (search pre (build_trie books)) i \<noteq> 0"
    by (simp add: count_list_0_iff)
  then have "filter (prefix pre) (tokens (books ! i)) \<noteq> []"
    by (auto simp: count_search_build_trie split: if_splits)
  then obtain w where w: "w \<in> set (tokens (books ! i))" and p: "prefix pre w"
    by (metis filter_False)
  from assms obtain c where c: "c \<in> set pre" and u: "isupper_ascii c" by blast
  from p c have "c \<in> set w" using set_mono_prefix by blast
  with w u show False using tokens_no_upper by blast
qed

section \<open>Counting occurrences\<close>





section \<open>Two orders of insertion\<close>

lemma search_insert_all_mset_cong:
  assumes "mset ps1 = mset ps2"
  shows "mset (search pre (insert_all ps1 new_Trie)) = mset (search pre (insert_all ps2 new_Trie))"
proof -
  have "mset (map snd (filter (\<lambda>p. prefix pre (fst p)) ps)) =
        image_mset snd (filter_mset (\<lambda>p. prefix pre (fst p)) (mset ps))" for ps :: "(string \<times> nat) list"
    by simp
  with assms show ?thesis by (simp add: search_insert_all)
qed

lemma collect_and_filter_mset_cong:
  assumes "mset c1 = mset c2"
  shows "map_sum id mset (collect_and_filter df a g m c1) =
         map_sum id mset (collect_and_filter df a g m c2)"
proof (cases "\<forall>idx\<in>set c1. idx < length df")
  case True
  moreover from assms have "set c1 = set c2" by (rule mset_eq_setD)
  ultimately have "\<forall>idx\<in>set c2. idx < length df" by simp
  have "mset (filter (passes a g m) (map ((!) df) c)) =
        filter_mset (passes a g m) (image_mset ((!) df) (mset c))" for c
    by simp
  with assms True \<open>\<forall>idx\<in>set c2. idx < length df\<close> show ?thesis
    by (simp add: collect_and_filter_in_range)
next
  case False
  moreover from assms have "set c1 = set c2" by (rule mset_eq_setD)
  ultimately have "\<not> (\<forall>idx\<in>set c2. idx < length df)" by simp
  with False show ?thesis by (simp add: collect_and_filter_out_of_range)
qed

lemma collect_and_filter_subset:
  "collect_and_filter df a g m c = Inr xs \<Longrightarrow> set xs \<subseteq> set df"
proof (cases "\<forall>idx\<in>set c. idx < length df")
  case True
  assume "collect_and_filter df a g m c = Inr xs"
  with True have "xs = filter (passes a g m) (map ((!) df) c)"
    by (simp add: collect_and_filter_in_range)
  with True show ?thesis by auto
next
  case False
  assume "collect_and_filter df a g m c = Inr xs"
  with False show ?thesis by (simp add: collect_and_filter_out_of_range)
qed

lemma ratings_sort_by_rating:
  "map average_rating (sort_by_rating xs) = rev (sort (map average_rating xs))"
proof -
  have "sort (map average_rating (rev xs)) = map average_rating (sort_key average_rating (rev xs))"
    by (rule properties_for_sort) simp_all
  moreover have "sort (map average_rating (rev xs)) = sort (map average_rating xs)"
    by (rule properties_for_sort) simp_all
  ultimately show ?thesis by (simp add: sort_by_rating_def rev_map)
qed

lemma ratings_sort_by_rating_cong:
  assumes "mset xs = mset ys"
  shows "map average_rating (sort_by_rating xs) = map average_rating (sort_by_rating ys)"
proof -
  have "mset (map average_rating xs) = mset (map average_rating ys)"
    using assms by (metis mset_map)
  then have "sort (map average_rating ys) = sort (map average_rating xs)"
    by (intro properties_for_sort) simp_all
  then show ?thesis by (simp add: ratings_sort_by_rating)
qed

lemma sort_by_rating_inj_cong:
  assumes "mset xs = mset ys" and "inj_on average_rating (set xs)"
  shows "sort_by_rating xs = sort_by_rating ys"
proof -
  have "sort_key average_rating (rev xs) = sort_key average_rating (rev ys)"
  proof (rule sort_key_inj_key_eq)
    show "mset (rev xs) = mset (sort_key average_rating (rev ys))" using assms(1) by simp
    show "inj_on average_rating (set (rev xs))" using assms(2) by simp
    show "sorted (map average_rating (sort_key average_rating (rev ys)))" by simp
  qed
  then show ?thesis by (simp add: sort_by_rating_def)
qed

lemma recommended_indices_mset_cong:
  assumes "mset ps1 = mset ps2"
  shows "mset (recommended_indices \<lparr>books_df = df, trie = insert_all ps1 new_Trie\<rparr> q) =
         mset (recommended_indices \<lparr>books_df = df, trie = insert_all ps2 new_Trie\<rparr> q)"
  using search_insert_all_mset_cong [OF assms] by (simp add: recommended_indices_def)

section \<open>The size of the trie and of the results\<close>

lemma collect_calls_new [simp]: "collect_calls new_TrieNode = 1"
  by (simp add: new_TrieNode_def)









lemma collect_and_filter_length:
  "collect_and_filter df a g m cands = Inr xs \<Longrightarrow> length xs \<le> length cands"
proof (induction cands arbitrary: xs)
  case Nil
  then show ?case by simp
next
  case (Cons idx rest)
  from Cons.prems obtain b where b: "iloc df idx = Inr b"
    by (cases "iloc df idx") simp_all
  from Cons.prems b obtain ys where ys: "collect_and_filter df a g m rest = Inr ys"
    by (cases "collect_and_filter df a g m rest") simp_all
  from ys have "length ys \<le> length rest" by (rule Cons.IH)
  moreover from Cons.prems b ys have "xs = ys \<or> xs = ys @ [b] \<or> xs = b # ys"
    by (simp split: if_splits)
  ultimately show ?case by auto
qed




section \<open>The claims\<close>

text \<open>
  Claim C1. Prefix search is complete: for every dataset, every row \<open>i\<close> of it, every
  word \<open>word\<close> among the tokens of the row (its lower-cased \<open>title authors genre\<close> text
  split on whitespace) and every prefix \<open>pre\<close> of that word (the word itself included),
  \<open>search pre\<close> on the trie that \<open>__init__\<close> builds returns \<open>i\<close> among its results.
\<close>

theorem prefix_search_complete:
  assumes "i < length books" and "word \<in> set (tokens (books ! i))" and "prefix pre word"
  shows "i \<in> set (search pre (trie (init books)))"
proof -
  from assms(2,3) have "word \<in> set (filter (prefix pre) (tokens (books ! i)))" by simp
  then have "filter (prefix pre) (tokens (books ! i)) \<noteq> []" by (metis empty_iff empty_set)
  then have "0 < length (filter (prefix pre) (tokens (books ! i)))" by simp
  with assms(1) have "count_list (search pre (build_trie books)) i \<noteq> 0"
    by (simp add: count_search_build_trie)
  then show ?thesis by (simp add: count_list_0_iff init_def)
qed

theorem prefix_search_complete_witness:
  "(1::nat) < length example_books \<and> ''messiah'' \<in> set (tokens (example_books ! 1)) \<and>
   prefix ''mes'' ''messiah'' \<and> 1 \<in> set (search ''mes'' (trie (init example_books)))"
proof -
  have h1: "(1::nat) < length example_books" by code_simp
  have h2: "''messiah'' \<in> set (tokens (example_books ! 1))" by code_simp
  have h3: "prefix ''mes'' ''messiah''" by code_simp
  from prefix_search_complete [OF h1 h2 h3] h1 h2 h3 show ?thesis by blast
qed

text \<open>
  Claim C2. The filtering step of \<open>recommend_books\<close> is a list filter over the candidate
  sequence: for candidates that are positions of the frame (as the candidates of a
  recommender built by \<open>__init__\<close> always are), a candidate row is kept exactly when
  (the author filter is \<open>"All"\<close> or equals its authors) and (the genre filter is \<open>"All"\<close>
  or equals its genre) and its rating is at least the minimum; the rows kept are a
  subsequence of the candidate rows, in their order; and with the filter \<open>"All"\<close> on a
  dimension, that dimension excludes no row, whatever the row's own value, the string
  \<open>All\<close> included.
\<close>


theorem filtering_is_list_filter:
  assumes "\<forall>idx\<in>set cands. idx < length df"
  shows "(\<exists>kept. collect_and_filter df a g m cands = Inr kept \<and>
            kept = filter (passes a g m) (map ((!) df) cands) \<and>
            subseq kept (map ((!) df) cands)) \<and>
         collect_and_filter df ''All'' g m cands =
           Inr (filter (\<lambda>b. (g = ''All'' \<or> genre b = g) \<and> m \<le> average_rating b)
                  (map ((!) df) cands)) \<and>
         collect_and_filter df a ''All'' m cands =
           Inr (filter (\<lambda>b. (a = ''All'' \<or> authors b = a) \<and> m \<le> average_rating b)
                  (map ((!) df) cands))"
  using assms by (simp add: collect_and_filter_in_range passes_def [abs_def])

theorem filtering_is_list_filter_witness:
  "list_all (\<lambda>idx. idx < length all_books) [1, 0, 1, 2] \<and>
   collect_and_filter all_books ''All'' ''All'' 4 [1, 0, 1, 2] = Inr [all_books ! 0, all_books ! 2] \<and>
   collect_and_filter all_books ''All'' ''All'' 1 [1, 0, 1, 2] =
     Inr [all_books ! 1, all_books ! 0, all_books ! 1, all_books ! 2] \<and>
   collect_and_filter all_books ''Austen'' ''All'' 1 [1, 0, 1, 2] = Inr [all_books ! 0]"
proof -
  have h: "\<forall>idx\<in>set [1, 0, 1, 2]. idx < length all_books" by code_simp
  have l: "list_all (\<lambda>idx. idx < length all_books) [1, 0, 1, 2]" by code_simp
  have e1: "filter (\<lambda>b. (''All'' = ''All'' \<or> genre b = ''All'') \<and> 4 \<le> average_rating b)
              (map ((!) all_books) [1, 0, 1, 2]) = [all_books ! 0, all_books ! 2]" by code_simp
  have e2: "filter (\<lambda>b. (''All'' = ''All'' \<or> genre b = ''All'') \<and> 1 \<le> average_rating b)
              (map ((!) all_books) [1, 0, 1, 2]) =
            [all_books ! 1, all_books ! 0, all_books ! 1, all_books ! 2]" by code_simp
  have e3: "filter (\<lambda>b. (''Austen'' = ''All'' \<or> authors b = ''Austen'') \<and> 1 \<le> average_rating b)
              (map ((!) all_books) [1, 0, 1, 2]) = [all_books ! 0]" by code_simp
  from filtering_is_list_filter [OF h, of "''All''" "''All''" 4]
       filtering_is_list_filter [OF h, of "''All''" "''All''" 1]
       filtering_is_list_filter [OF h, of "''Austen''" "''All''" 1] l e1 e2 e3
  show ?thesis by metis
qed

text \<open>
  Claim C3. The list that \<open>recommend_books\<close> returns is sorted by rating, highest first:
  every row has a rating at least that of each later row, adjacent pairs in particular.
  The sort is stable: the result has the rows of the filtering step, and for every
  rating the rows with that rating stand in the order the filtering step produced them.
\<close>

theorem result_sorted_and_stable:
  assumes "recommend_books r q a g m = Inr result"
  shows "sorted_wrt (\<lambda>x y. average_rating y \<le> average_rating x) result \<and>
         (\<forall>j. Suc j < length result \<longrightarrow>
              average_rating (result ! Suc j) \<le> average_rating (result ! j)) \<and>
         (\<exists>filtered.
            collect_and_filter (books_df r) a g m (recommended_indices r q) = Inr filtered \<and>
            mset result = mset filtered \<and>
            (\<forall>k. filter (\<lambda>b. average_rating b = k) result =
                 filter (\<lambda>b. average_rating b = k) filtered))"
proof -
  from assms obtain filtered where
    f: "collect_and_filter (books_df r) a g m (recommended_indices r q) = Inr filtered" and
    res: "result = sort_by_rating filtered"
    by (auto simp: recommend_books_def split: sum.splits)
  have s: "sorted_wrt (\<lambda>x y. average_rating y \<le> average_rating x) result"
    unfolding res by (rule sort_by_rating_sorted)
  then have "\<forall>j. Suc j < length result \<longrightarrow>
      average_rating (result ! Suc j) \<le> average_rating (result ! j)"
    by (simp add: sorted_wrt_iff_nth_less)
  moreover have "mset result = mset filtered" by (simp add: res)
  moreover have "\<forall>k. filter (\<lambda>b. average_rating b = k) result =
      filter (\<lambda>b. average_rating b = k) filtered"
    by (simp add: res sort_by_rating_stable)
  ultimately show ?thesis using s f by blast
qed

theorem result_sorted_and_stable_witness:
  "recommend_books (init all_books) [] ''All'' ''All'' 1 =
     Inr [all_books ! 0, all_books ! 2, all_books ! 1] \<and>
   collect_and_filter (books_df (init all_books)) ''All'' ''All'' 1
       (recommended_indices (init all_books) []) =
     Inr [all_books ! 0, all_books ! 1, all_books ! 2] \<and>
   sorted_wrt (\<lambda>x y. average_rating y \<le> average_rating x)
     [all_books ! 0, all_books ! 2, all_books ! 1]"
proof -
  have h: "recommend_books (init all_books) [] ''All'' ''All'' 1 =
     Inr [all_books ! 0, all_books ! 2, all_books ! 1]" by code_simp
  have c: "collect_and_filter (books_df (init all_books)) ''All'' ''All'' 1
       (recommended_indices (init all_books) []) =
     Inr [all_books ! 0, all_books ! 1, all_books ! 2]" by code_simp
  from result_sorted_and_stable [OF h] h c show ?thesis by blast
qed

text \<open>
  Claim C4. For a query that is empty or consists of whitespace only, the candidates of
  \<open>recommend_books\<close> are all positions \<open>0 .. n-1\<close> of the frame in order, whatever the trie
  holds, so the result is the sorted filter of the whole frame; for every other query
  the candidates are what \<open>search\<close> returns for the lower-cased query.
\<close>

theorem candidates_by_query:
  "((\<forall>c\<in>set q. isspace c) \<longrightarrow>
      recommended_indices r q = [0 ..< length (books_df r)] \<and>
      recommended_indices (r\<lparr>trie := t\<rparr>) q = [0 ..< length (books_df r)] \<and>
      recommend_books r q a g m =
        Inr (sort_by_rating (filter (passes a g m) (books_df r)))) \<and>
   (\<not> (\<forall>c\<in>set q. isspace c) \<longrightarrow>
      recommended_indices r q = search (lower q) (trie r))"
  using recommend_books_whitespace [of q r a g m]
  by (simp add: recommended_indices_def strip_empty_iff)

theorem candidates_by_query_witness:
  "list_all isspace '' '' \<and>
   recommended_indices (init example_books) '' '' = [0, 1, 2] \<and>
   recommended_indices (init example_books\<lparr>trie := new_Trie\<rparr>) '' '' = [0, 1, 2] \<and>
   list_ex (\<lambda>c. \<not> isspace c) ''Dune'' \<and>
   recommended_indices (init example_books) ''Dune'' = [0, 1]"
proof -
  have w: "\<forall>c\<in>set '' ''. isspace c" by code_simp
  have n: "\<not> (\<forall>c\<in>set ''Dune''. isspace c)" by code_simp
  have l: "list_all isspace '' ''" by code_simp
  have x: "list_ex (\<lambda>c. \<not> isspace c) ''Dune''" by code_simp
  have e1: "[0 ..< length (books_df (init example_books))] = [0, 1, 2]" by code_simp
  have e2: "search (lower ''Dune'') (trie (init example_books)) = [0, 1]" by code_simp
  from candidates_by_query [of "'' ''" "init example_books" new_Trie]
       candidates_by_query [of "''Dune''" "init example_books"] w n l x e1 e2
  show ?thesis by simp
qed

text \<open>
  Claim C6, as amended. When the walk of \<open>search\<close> along a prefix fails (some character
  has no child), \<open>search\<close> returns the empty list and raises nothing; and for a query that
  is not whitespace only and whose lower-cased form fails the walk, \<open>recommend_books\<close>
  returns the empty list. The claim as stated promises the empty result for the failing
  prefix itself as the query; that fails for a prefix with an upper-case letter, which
  \<open>recommend_books\<close> lower-cases before it searches, and for a whitespace-only prefix,
  for which \<open>recommend_books\<close> does not search at all.
\<close>

theorem missing_prefix_is_empty:
  "(walk pre (root t) = None \<longrightarrow> search pre t = []) \<and>
   (\<not> (\<forall>c\<in>set q. isspace c) \<and> walk (lower q) (root (trie r)) = None \<longrightarrow>
      recommended_indices r q = [] \<and> recommend_books r q a g m = Inr [])"
proof -
  have 1: "search pre t = []" if "walk pre (root t) = None" for pre t
    using that by (simp add: search_def search_from_walk)
  have 2: "recommended_indices r q = [] \<and> recommend_books r q a g m = Inr []"
    if "\<not> (\<forall>c\<in>set q. isspace c)" and "walk (lower q) (root (trie r)) = None"
  proof -
    from that(1) have "strip q \<noteq> []" by (simp only: strip_empty_iff not_False_eq_True)
    then have "recommended_indices r q = search (lower q) (trie r)"
      by (simp add: recommended_indices_def)
    also have "\<dots> = []" using that(2) by (rule 1)
    finally have "recommended_indices r q = []" .
    then show ?thesis by (simp add: recommend_books_no_candidates)
  qed
  from 1 2 show ?thesis by blast
qed

theorem missing_prefix_is_empty_witness:
  "walk ''zzz'' (root (trie (init example_books))) = None \<and>
   search ''zzz'' (trie (init example_books)) = [] \<and>
   list_ex (\<lambda>c. \<not> isspace c) ''ZZZ'' \<and>
   walk (lower ''ZZZ'') (root (trie (init example_books))) = None \<and>
   recommend_books (init example_books) ''ZZZ'' ''All'' ''All'' 1 = Inr []"
proof -
  have h1: "walk ''zzz'' (root (trie (init example_books))) = None" by code_simp
  have h2: "\<not> (\<forall>c\<in>set ''ZZZ''. isspace c)" by code_simp
  have h2': "list_ex (\<lambda>c. \<not> isspace c) ''ZZZ''" by code_simp
  have h3: "walk (lower ''ZZZ'') (root (trie (init example_books))) = None" by code_simp
  from missing_prefix_is_empty [of "''zzz''" "trie (init example_books)" "''ZZZ''"
      "init example_books" "''All''" "''All''" 1] h1 h2 h2' h3
  show ?thesis by blast
qed

theorem missing_prefix_counterexample:
  "walk ''Dune'' (root (trie (init example_books))) = None \<and>
   search ''Dune'' (trie (init example_books)) = [] \<and>
   recommend_books (init example_books) ''Dune'' ''All'' ''All'' 1 =
     Inr [example_books ! 0, example_books ! 1] \<and>
   walk '' '' (root (trie (init example_books))) = None \<and>
   search '' '' (trie (init example_books)) = [] \<and>
   recommend_books (init example_books) '' '' ''All'' ''All'' 1 =
     Inr [example_books ! 2, example_books ! 0, example_books ! 1]"
  by code_simp

text \<open>
  Claim C10. \<open>search\<close> does no case normalisation: on the trie that \<open>__init__\<close> builds,
  whose text is lower-cased, a prefix with an upper-case ASCII letter finds nothing.
  \<open>recommend_books\<close> treats a query and its lower-cased form alike, because it lower-cases
  the query itself before it searches.
\<close>

theorem search_is_case_sensitive:
  assumes "\<exists>c\<in>set pre. isupper_ascii c"
  shows "search pre (trie (init books)) = [] \<and>
         recommend_books r q a g m = recommend_books r (lower q) a g m \<and>
         (strip q \<noteq> [] \<longrightarrow> recommended_indices r q = search (lower q) (trie r))"
  using assms
  by (simp add: init_def search_upper_empty recommend_books_def recommended_indices_def
      lower_idem strip_lower_empty)

theorem search_is_case_sensitive_witness:
  "list_ex isupper_ascii ''Dune'' \<and>
   search ''Dune'' (trie (init example_books)) = [] \<and>
   search ''dune'' (trie (init example_books)) = [0, 1] \<and>
   recommend_books (init example_books) ''Dune'' ''All'' ''All'' 1 =
     recommend_books (init example_books) ''dune'' ''All'' ''All'' 1 \<and>
   recommend_books (init example_books) ''dune'' ''All'' ''All'' 1 =
     Inr [example_books ! 0, example_books ! 1]"
proof -
  have h: "\<exists>c\<in>set ''Dune''. isupper_ascii c" by code_simp
  have h': "list_ex isupper_ascii ''Dune''" by code_simp
  have l: "lower ''Dune'' = ''dune''" by code_simp
  have s: "search ''dune'' (trie (init example_books)) = [0, 1]" by code_simp
  have r: "recommend_books (init example_books) ''dune'' ''All'' ''All'' 1 =
     Inr [example_books ! 0, example_books ! 1]" by code_simp
  from search_is_case_sensitive [OF h, of example_books "init example_books" "''Dune''"
      "''All''" "''All''" 1] h' l s r
  show ?thesis by simp
qed



text \<open>
  Claim C7, as amended. When one of the four required columns \<open>title\<close>, \<open>authors\<close>,
  \<open>genre\<close>, \<open>average_rating\<close> is not among the columns of the frame, the run ends with
  one error before any recommender is built, and the error lists all four required
  columns, whichever of them are missing. When all four are present there is no error
  and the recommender is built from the rows. The claim as stated has the error name
  the missing columns: the message is built from the constant \<open>required_columns\<close>, so it
  is the same for every frame that is refused and it also lists columns that are present.
\<close>

theorem schema_error_lists_required:
  "((\<exists>f\<in>required_columns. f \<notin> set columns) \<longrightarrow>
      start_recommender columns books =
        Inl (SchemaError {''title'', ''authors'', ''genre'', ''average_rating''})) \<and>
   (required_columns \<subseteq> set columns \<longrightarrow> start_recommender columns books = Inr (init books))"
  by (auto simp: start_recommender_def required_columns_def)

theorem schema_error_lists_required_witness:
  "''average_rating'' \<in> required_columns \<and>
   ''average_rating'' \<notin> set [''title'', ''authors'', ''genre'', ''image_url''] \<and>
   start_recommender [''title'', ''authors'', ''genre'', ''image_url''] example_books =
     Inl (SchemaError {''title'', ''authors'', ''genre'', ''average_rating''}) \<and>
   required_columns \<subseteq> set [''image_url'', ''genre'', ''title'', ''average_rating'', ''authors''] \<and>
   start_recommender [''image_url'', ''genre'', ''title'', ''average_rating'', ''authors'']
       example_books = Inr (init example_books)"
proof -
  have m1: "''average_rating'' \<in> required_columns" by (simp add: required_columns_def)
  have m2: "''average_rating'' \<notin> set [''title'', ''authors'', ''genre'', ''image_url'']" by simp
  have p: "required_columns \<subseteq>
      set [''image_url'', ''genre'', ''title'', ''average_rating'', ''authors'']"
    by (simp add: required_columns_def)
  from m1 m2 have e: "\<exists>f\<in>required_columns. f \<notin> set [''title'', ''authors'', ''genre'', ''image_url'']"
    by blast
  from schema_error_lists_required [of "[''title'', ''authors'', ''genre'', ''image_url'']" example_books] e
  have 1: "start_recommender [''title'', ''authors'', ''genre'', ''image_url''] example_books =
     Inl (SchemaError {''title'', ''authors'', ''genre'', ''average_rating''})" by blast
  from schema_error_lists_required [of "[''image_url'', ''genre'', ''title'', ''average_rating'', ''authors'']"
      example_books] p
  have 2: "start_recommender [''image_url'', ''genre'', ''title'', ''average_rating'', ''authors'']
       example_books = Inr (init example_books)" by blast
  show ?thesis
    by (rule conjI, rule m1, rule conjI, rule m2, rule conjI, rule 1, rule conjI, rule p, rule 2)
qed

theorem schema_error_counterexample:
  "required_columns - set [''title'', ''authors'', ''genre'', ''image_url''] = {''average_rating''} \<and>
   start_recommender [''title'', ''authors'', ''genre'', ''image_url''] example_books =
     Inl (SchemaError required_columns) \<and>
   required_columns \<noteq> {''average_rating''} \<and>
   ''title'' \<in> required_columns \<and>
   ''title'' \<in> set [''title'', ''authors'', ''genre'', ''image_url''] \<and>
   required_columns - set [''average_rating''] = {''title'', ''authors'', ''genre''} \<and>
   start_recommender [''average_rating''] example_books = Inl (SchemaError required_columns)"
proof -
  have a: "required_columns - set [''title'', ''authors'', ''genre'', ''image_url''] =
      {''average_rating''}"
    by (auto simp: required_columns_def)
  have b: "start_recommender [''title'', ''authors'', ''genre'', ''image_url''] example_books =
     Inl (SchemaError required_columns)"
    by (simp add: start_recommender_def required_columns_def)
  have c: "required_columns \<noteq> {''average_rating''}"
    by (auto simp: required_columns_def)
  have d: "''title'' \<in> required_columns" by (simp add: required_columns_def)
  have e: "''title'' \<in> set [''title'', ''authors'', ''genre'', ''image_url'']" by simp
  have f: "required_columns - set [''average_rating''] = {''title'', ''authors'', ''genre''}"
    by (auto simp: required_columns_def)
  have g: "start_recommender [''average_rating''] example_books =
     Inl (SchemaError required_columns)"
    by (simp add: start_recommender_def required_columns_def)
  show ?thesis
    by (rule conjI, rule a, rule conjI, rule b, rule conjI, rule c, rule conjI, rule d,
        rule conjI, rule e, rule conjI, rule f, rule g)
qed

text \<open>
  Claim C8, as amended. For two sequences of insertions of the same multiset of
  (word, identifier) pairs, and every query, author filter, genre filter and minimum
  rating, \<open>recommend_books\<close> fails on both tries or returns on both; the two lists returned
  hold the same rows with the same multiplicities and show the same sequence of ratings,
  so they differ at most in the order of rows of equal rating; and they are equal lists
  when no two rows of the dataset have the same rating. The claim as stated promises
  equal lists always: the stable sort keeps rows of equal rating in the order of the
  trie's traversal, which follows the order of insertion.
\<close>

theorem insertion_order_up_to_ties:
  assumes "mset ps1 = mset ps2"
  shows "map_sum id mset
           (recommend_books \<lparr>books_df = df, trie = insert_all ps1 new_Trie\<rparr> q a g m) =
         map_sum id mset
           (recommend_books \<lparr>books_df = df, trie = insert_all ps2 new_Trie\<rparr> q a g m) \<and>
         map_sum id (map average_rating)
           (recommend_books \<lparr>books_df = df, trie = insert_all ps1 new_Trie\<rparr> q a g m) =
         map_sum id (map average_rating)
           (recommend_books \<lparr>books_df = df, trie = insert_all ps2 new_Trie\<rparr> q a g m) \<and>
         (inj_on average_rating (set df) \<longrightarrow>
            recommend_books \<lparr>books_df = df, trie = insert_all ps1 new_Trie\<rparr> q a g m =
            recommend_books \<lparr>books_df = df, trie = insert_all ps2 new_Trie\<rparr> q a g m)"
proof -
  let ?r1 = "\<lparr>books_df = df, trie = insert_all ps1 new_Trie\<rparr>"
  let ?r2 = "\<lparr>books_df = df, trie = insert_all ps2 new_Trie\<rparr>"
  let ?f1 = "collect_and_filter df a g m (recommended_indices ?r1 q)"
  let ?f2 = "collect_and_filter df a g m (recommended_indices ?r2 q)"
  have f: "map_sum id mset ?f1 = map_sum id mset ?f2"
    by (rule collect_and_filter_mset_cong) (rule recommended_indices_mset_cong [OF assms])
  show ?thesis
  proof (cases ?f1)
    case (Inl e)
    with f have "?f2 = Inl e" by (cases ?f2) simp_all
    with Inl show ?thesis by (simp add: recommend_books_def)
  next
    case (Inr xs)
    with f obtain ys where ys: "?f2 = Inr ys" and m: "mset xs = mset ys"
      by (cases ?f2) simp_all
    have "sort_by_rating xs = sort_by_rating ys" if "inj_on average_rating (set df)"
    proof -
      from Inr have "set xs \<subseteq> set df" by (rule collect_and_filter_subset)
      with that have "inj_on average_rating (set xs)" by (rule inj_on_subset)
      with m show ?thesis by (rule sort_by_rating_inj_cong)
    qed
    note s = this
    have r1: "recommend_books ?r1 q a g m = Inr (sort_by_rating xs)"
      using Inr by (simp add: recommend_books_def)
    have r2: "recommend_books ?r2 q a g m = Inr (sort_by_rating ys)"
      using ys by (simp add: recommend_books_def)
    have c1: "mset (sort_by_rating xs) = mset (sort_by_rating ys)"
      using m by (simp only: mset_sort_by_rating)
    have c2: "map average_rating (sort_by_rating xs) = map average_rating (sort_by_rating ys)"
      using m by (rule ratings_sort_by_rating_cong)
    show ?thesis
      unfolding r1 r2 using c1 c2 s by (simp only: map_sum.simps id_apply sum.inject simp_thms) blast
  qed
qed

theorem insertion_order_up_to_ties_witness:
  "mset (insertions example_books) = mset (rev (insertions example_books)) \<and>
   inj_on average_rating (set example_books) \<and>
   search ''d'' (insert_all (insertions example_books) new_Trie) = [0, 1] \<and>
   search ''d'' (insert_all (rev (insertions example_books)) new_Trie) = [1, 0] \<and>
   recommend_books
     \<lparr>books_df = example_books, trie = insert_all (insertions example_books) new_Trie\<rparr>
     ''d'' ''All'' ''All'' 1 = Inr [example_books ! 0, example_books ! 1] \<and>
   recommend_books
     \<lparr>books_df = example_books,
        trie = insert_all (rev (insertions example_books)) new_Trie\<rparr>
     ''d'' ''All'' ''All'' 1 = Inr [example_books ! 0, example_books ! 1]"
proof -
  have h: "mset (insertions example_books) = mset (rev (insertions example_books))"
    by (simp only: mset_rev)
  have i: "inj_on average_rating (set example_books)"
    by (simp add: example_books_def)
  have s1: "search ''d'' (insert_all (insertions example_books) new_Trie) = [0, 1]"
    by code_simp
  have s2: "search ''d'' (insert_all (rev (insertions example_books)) new_Trie) = [1, 0]"
    by code_simp
  have r: "recommend_books
     \<lparr>books_df = example_books, trie = insert_all (insertions example_books) new_Trie\<rparr>
     ''d'' ''All'' ''All'' 1 = Inr [example_books ! 0, example_books ! 1]" by code_simp
  have e: "recommend_books
     \<lparr>books_df = example_books, trie = insert_all (insertions example_books) new_Trie\<rparr>
     ''d'' ''All'' ''All'' 1 =
     recommend_books
     \<lparr>books_df = example_books,
        trie = insert_all (rev (insertions example_books)) new_Trie\<rparr>
     ''d'' ''All'' ''All'' 1"
    using insertion_order_up_to_ties [OF h, of example_books "''d''" "''All''" "''All''" 1] i
    by blast
  have c: "recommend_books
     \<lparr>books_df = example_books,
        trie = insert_all (rev (insertions example_books)) new_Trie\<rparr>
     ''d'' ''All'' ''All'' 1 = Inr [example_books ! 0, example_books ! 1]"
    using r unfolding e .
  show ?thesis
    by (rule conjI, rule h, rule conjI, rule i, rule conjI, rule s1, rule conjI, rule s2,
        rule conjI, rule r, rule c)
qed

theorem insertion_order_counterexample:
  "mset (insertions all_books) = mset (rev (insertions all_books)) \<and>
   recommend_books
     \<lparr>books_df = all_books, trie = insert_all (insertions all_books) new_Trie\<rparr>
     ''e'' ''All'' ''All'' 1 = Inr [all_books ! 0, all_books ! 2] \<and>
   recommend_books
     \<lparr>books_df = all_books, trie = insert_all (rev (insertions all_books)) new_Trie\<rparr>
     ''e'' ''All'' ''All'' 1 = Inr [all_books ! 2, all_books ! 0] \<and>
   all_books ! 0 \<noteq> all_books ! 2"
proof -
  have h: "mset (insertions all_books) = mset (rev (insertions all_books))"
    by (simp only: mset_rev)
  have r1: "recommend_books
     \<lparr>books_df = all_books, trie = insert_all (insertions all_books) new_Trie\<rparr>
     ''e'' ''All'' ''All'' 1 = Inr [all_books ! 0, all_books ! 2]" by code_simp
  have r2: "recommend_books
     \<lparr>books_df = all_books, trie = insert_all (rev (insertions all_books)) new_Trie\<rparr>
     ''e'' ''All'' ''All'' 1 = Inr [all_books ! 2, all_books ! 0]" by code_simp
  have d: "all_books ! 0 \<noteq> all_books ! 2" by code_simp
  show ?thesis by (rule conjI, rule h, rule conjI, rule r1, rule conjI, rule r2, rule d)
qed


end
